theory Spec2Isabelle
  imports Main
begin

section \<open>The template-driven lexer of \<^verbatim>\<open>lexer.py\<close>\<close>

text \<open>
  The development follows \<^verbatim>\<open>src/lexer.py\<close>: the classes \<^verbatim>\<open>Token\<close>,
  \<^verbatim>\<open>TokenTemplate\<close>, \<^verbatim>\<open>ProgramCounter\<close> and \<^verbatim>\<open>Lexer\<close> become records, their
  methods become functions that take the object and return the updated one, and
  exceptions become values of the type \<open>error\<close>.  Python's integers are \<open>int\<close>; a text is
  a list of characters, one element for each character that Python counts.
\<close>

subsection \<open>Values, errors and tokens\<close>

text \<open>
  A lexeme is typed \<^verbatim>\<open>Any\<close>: it is the matched string, or whatever the template's
  callback made of it.  The two kinds of value that the module's own examples produce are
  modelled: strings, and the integers made by the callback \<^verbatim>\<open>int\<close>.
\<close>

datatype pyval = PyStr string | PyInt int

datatype error =
    UnknownSymbolError int int string
  | TypeError
  | IndexError

definition NEWLINE :: char where
  "NEWLINE = CHR 0x0A"

record Token =
  token_type :: string
  lexeme :: pyval
  start :: int
  end_pos :: int
  line :: int
  column :: int

text \<open>\<^verbatim>\<open>len(x)\<close>: defined on strings, a \<^verbatim>\<open>TypeError\<close> on integers.\<close>

fun py_len :: "pyval \<Rightarrow> error + int" where
  "py_len (PyStr s) = Inr (int (length s))"
| "py_len (PyInt n) = Inl TypeError"

text \<open>\<^verbatim>\<open>str(x)\<close>: a string is itself, an integer is its decimal numeral.\<close>

fun digits :: "nat \<Rightarrow> string" where
  "digits n =
     (if n < 10 then [char_of (48 + n)]
      else digits (n div 10) @ [char_of (48 + n mod 10)])"

declare digits.simps [simp del]

fun py_str :: "pyval \<Rightarrow> string" where
  "py_str (PyStr s) = s"
| "py_str (PyInt n) = (if n < 0 then CHR ''-'' # digits (nat (- n)) else digits (nat n))"

text \<open>\<^verbatim>\<open>Token.__len__\<close> returns \<^verbatim>\<open>len(str(self.lexeme))\<close>.\<close>

definition token_len :: "Token \<Rightarrow> int" where
  "token_len tok = int (length (py_str (lexeme tok)))"

text \<open>
  \<^verbatim>\<open>Token\<close> defines \<^verbatim>\<open>__len__\<close> and no \<^verbatim>\<open>__bool__\<close>, so the truth value that
  \<^verbatim>\<open>if not token\<close> and \<^verbatim>\<open>if not best\<close> test is whether that length is nonzero.
\<close>

definition token_truthy :: "Token \<Rightarrow> bool" where
  "token_truthy tok \<longleftrightarrow> token_len tok \<noteq> 0"

subsection \<open>The pattern engine\<close>

text \<open>
  The compiled pattern is an object of Python's \<^verbatim>\<open>re\<close> library, which is not part of the
  repository.  It is a parameter: \<open>rx text pos\<close> stands for \<^verbatim>\<open>rx.match(text, pos)\<close>, and
  the match object is reduced to the two things the lexer reads from it, \<^verbatim>\<open>end()\<close> and
  \<^verbatim>\<open>group()\<close>.
\<close>

record re_match =
  m_end :: int
  m_group :: string

type_synonym regex = "string \<Rightarrow> int \<Rightarrow> re_match option"

text \<open>
  What the library promises of \<^verbatim>\<open>Pattern.match\<close>: the match begins at \<open>pos\<close>, ends
  inside the text, and its group is the slice of the text between the two.
\<close>

definition re_contract :: "regex \<Rightarrow> bool" where
  "re_contract rx \<longleftrightarrow>
     (\<forall>text pos m. 0 \<le> pos \<longrightarrow> pos \<le> int (length text) \<longrightarrow> rx text pos = Some m \<longrightarrow>
        pos \<le> m_end m \<and> m_end m \<le> int (length text) \<and>
        m_group m = take (nat (m_end m - pos)) (drop (nat pos) text))"

subsection \<open>\<^verbatim>\<open>TokenTemplate\<close>\<close>

text \<open>
  The callback is supplied by the caller; it is taken as a function that returns a value
  for every string.
\<close>

record TokenTemplate =
  tt_token_type :: string
  regular_expression :: regex
  callback :: "(string \<Rightarrow> pyval) option"

text \<open>
  The loop of \<^verbatim>\<open>TokenTemplate.match\<close> over the characters of the matched value: each
  newline adds one to the line and sets the column to 1.
\<close>

fun scan_newlines :: "string \<Rightarrow> int \<times> int \<Rightarrow> int \<times> int" where
  "scan_newlines [] (ln, col) = (ln, col)"
| "scan_newlines (ch # cs) (ln, col) =
     (if ch = NEWLINE then scan_newlines cs (ln + 1, 1) else scan_newlines cs (ln, col))"

definition match :: "TokenTemplate \<Rightarrow> string \<Rightarrow> int \<Rightarrow> int \<Rightarrow> int \<Rightarrow> Token option" where
  "match t text st ln col =
     (case regular_expression t text st of
        None \<Rightarrow> None
      | Some matched \<Rightarrow>
          (let e = m_end matched;
               val = m_group matched;
               (ln', col') = scan_newlines val (ln, col);
               val' = (case callback t of None \<Rightarrow> PyStr val | Some f \<Rightarrow> f val)
           in Some \<lparr>token_type = tt_token_type t, lexeme = val', start = st, end_pos = e,
                     line = ln', column = col'\<rparr>))"

subsection \<open>\<^verbatim>\<open>ProgramCounter\<close>\<close>

record ProgramCounter =
  pc_start :: int
  pc_line :: int
  pc_column :: int

definition ProgramCounter_init :: ProgramCounter where
  "ProgramCounter_init = \<lparr>pc_start = 0, pc_line = 1, pc_column = 1\<rparr>"

definition current :: "ProgramCounter \<Rightarrow> int \<times> int \<times> int" where
  "current pc = (pc_line pc, pc_start pc, pc_column pc)"

definition accept :: "ProgramCounter \<Rightarrow> Token \<Rightarrow> ProgramCounter" where
  "accept pc tok =
     (let col = (if line tok \<noteq> pc_line pc then 1
                 else pc_column pc + (end_pos tok - start tok))
      in \<lparr>pc_start = end_pos tok, pc_line = line tok, pc_column = col\<rparr>)"

subsection \<open>\<^verbatim>\<open>Lexer\<close>\<close>

record Lexer =
  templates :: "TokenTemplate list"
  tokens :: "Token list"
  line_counter :: ProgramCounter

text \<open>
  \<^verbatim>\<open>Lexer.__init__\<close> stores the templates and only declares the other two attributes;
  \<^verbatim>\<open>tokenize\<close> assigns both before it reads them.
\<close>

definition Lexer_init :: "TokenTemplate list \<Rightarrow> Lexer" where
  "Lexer_init ts = \<lparr>templates = ts, tokens = [], line_counter = ProgramCounter_init\<rparr>"

text \<open>\<^verbatim>\<open>Lexer.__best\<close> compares \<^verbatim>\<open>len(best.lexeme)\<close> with \<^verbatim>\<open>len(other.lexeme)\<close>.\<close>

definition best :: "Token \<Rightarrow> Token \<Rightarrow> error + Token" where
  "best b other =
     (case py_len (lexeme b) of
        Inl e \<Rightarrow> Inl e
      | Inr lb \<Rightarrow>
          (case py_len (lexeme other) of
             Inl e \<Rightarrow> Inl e
           | Inr lo \<Rightarrow> Inr (if lb > lo then b else other)))"

text \<open>\<^verbatim>\<open>Lexer.__accept\<close>: append the token and move the counter.\<close>

definition lexer_accept :: "Lexer \<Rightarrow> Token \<Rightarrow> Lexer" where
  "lexer_accept lx tok =
     lx\<lparr>tokens := tokens lx @ [tok], line_counter := accept (line_counter lx) tok\<rparr>"

text \<open>
  The \<^verbatim>\<open>for template in self.templates\<close> loop of \<^verbatim>\<open>tokenize\<close>, with the variable
  \<^verbatim>\<open>best\<close> as accumulator.  The counter does not change during the loop.
\<close>

fun scan_templates ::
  "TokenTemplate list \<Rightarrow> string \<Rightarrow> ProgramCounter \<Rightarrow> Token option \<Rightarrow> error + Token option"
where
  "scan_templates [] text pc b = Inr b"
| "scan_templates (t # ts) text pc b =
     (case match t text (pc_start pc) (pc_line pc) (pc_column pc) of
        None \<Rightarrow> scan_templates ts text pc b
      | Some tok \<Rightarrow>
          if \<not> token_truthy tok then scan_templates ts text pc b
          else (case b of
                  None \<Rightarrow> scan_templates ts text pc (Some tok)
                | Some bt \<Rightarrow>
                    if \<not> token_truthy bt then scan_templates ts text pc (Some tok)
                    else (case best bt tok of
                            Inl e \<Rightarrow> Inl e
                          | Inr b' \<Rightarrow> scan_templates ts text pc (Some b'))))"

text \<open>
  \<^verbatim>\<open>UnknownSymbolError.__init__\<close> reads line \<open>line - 1\<close> of the text split at newlines
  before it builds its message, with Python's indexing: a negative index counts from the
  end, an index out of range raises \<^verbatim>\<open>IndexError\<close>.
\<close>

fun split_newline :: "string \<Rightarrow> string list" where
  "split_newline [] = [] # []"
| "split_newline (ch # cs) =
     (if ch = NEWLINE then [] # split_newline cs
      else (case split_newline cs of
              [] \<Rightarrow> [ch] # []
            | p # ps \<Rightarrow> (ch # p) # ps))"

definition py_index :: "'a list \<Rightarrow> int \<Rightarrow> error + 'a" where
  "py_index xs i =
     (let k = (if i < 0 then i + int (length xs) else i)
      in if k < 0 \<or> int (length xs) \<le> k then Inl IndexError else Inr (xs ! nat k))"

definition raise_UnknownSymbolError :: "string \<Rightarrow> int \<Rightarrow> int \<Rightarrow> error" where
  "raise_UnknownSymbolError text ln col =
     (case py_index (split_newline text) (ln - 1) of
        Inl e \<Rightarrow> e
      | Inr excerpt \<Rightarrow> UnknownSymbolError ln col excerpt)"

text \<open>
  One pass through the body of the \<^verbatim>\<open>while\<close> loop: find the best token, raise if there
  is none, accept it otherwise.
\<close>

definition loop_body :: "string \<Rightarrow> Lexer \<Rightarrow> error + Lexer" where
  "loop_body text lx =
     (let pc = line_counter lx in
      case scan_templates (templates lx) text pc None of
        Inl e \<Rightarrow> Inl e
      | Inr None \<Rightarrow> Inl (raise_UnknownSymbolError text (pc_line pc) (pc_column pc))
      | Inr (Some b) \<Rightarrow>
          if \<not> token_truthy b
          then Inl (raise_UnknownSymbolError text (pc_line pc) (pc_column pc))
          else Inr (lexer_accept lx b))"

definition at_end :: "string \<Rightarrow> Lexer \<Rightarrow> bool" where
  "at_end text lx \<longleftrightarrow> pc_start (line_counter lx) = int (length text)"

text \<open>
  The \<^verbatim>\<open>while\<close> loop.  It need not end, so the result is an option: \<open>None\<close> is a run
  that never returns, \<open>Some (Some e, lx)\<close> a run that raised \<open>e\<close> and left the lexer as
  \<open>lx\<close>, \<open>Some (None, lx)\<close> a run that left the loop normally.
\<close>

partial_function (option) tokenize_loop :: "string \<Rightarrow> Lexer \<Rightarrow> (error option \<times> Lexer) option"
where
  "tokenize_loop text lx =
     (if at_end text lx then Some (None, lx)
      else (case loop_body text lx of
              Inl e \<Rightarrow> Some (Some e, lx)
            | Inr lx' \<Rightarrow> tokenize_loop text lx'))"

declare tokenize_loop.simps [code]

text \<open>
  \<^verbatim>\<open>Lexer.tokenize\<close>.  The result is the exception or the filtered tuple, together with
  the lexer object as the call leaves it.
\<close>

definition tokenize ::
  "Lexer \<Rightarrow> string \<Rightarrow> string list option \<Rightarrow> ((error + Token list) \<times> Lexer) option"
where
  "tokenize lx text filter_types =
     (let ft = (case filter_types of None \<Rightarrow> [] | Some l \<Rightarrow> l);
          lx0 = lx\<lparr>tokens := [], line_counter := ProgramCounter_init\<rparr>
      in case tokenize_loop text lx0 of
           None \<Rightarrow> None
         | Some (Some e, lx') \<Rightarrow> Some (Inl e, lx')
         | Some (None, lx') \<Rightarrow>
             Some (Inr (filter (\<lambda>x. token_type x \<notin> set ft) (tokens lx')), lx'))"

text \<open>
  The lexer after \<open>n\<close> completed passes through the loop body, if the loop gets that
  far: these are the states at which the lexer scans.
\<close>

fun steps :: "nat \<Rightarrow> string \<Rightarrow> Lexer \<Rightarrow> Lexer option" where
  "steps 0 text lx = Some lx"
| "steps (Suc n) text lx =
     (if at_end text lx then None
      else (case loop_body text lx of
              Inl e \<Rightarrow> None
            | Inr lx' \<Rightarrow> steps n text lx'))"

subsection \<open>Concrete patterns and templates for the examples\<close>

text \<open>
  The library starts a match at \<open>pos\<close> brought into the text: a negative \<open>pos\<close> counts as
  0, one beyond the end as the length of the text.
\<close>

definition re_pos :: "string \<Rightarrow> int \<Rightarrow> nat" where
  "re_pos text pos = min (nat pos) (length text)"

text \<open>
  Three patterns of the library, written out: a literal string, \<^verbatim>\<open>[class]*\<close> and
  \<^verbatim>\<open>[class]+\<close> for a set of characters (both greedy).
\<close>

definition re_literal :: "string \<Rightarrow> regex" where
  "re_literal s text pos =
     (let p = re_pos text pos
      in if take (length s) (drop p text) = s
         then Some \<lparr>m_end = int p + int (length s), m_group = s\<rparr>
         else None)"

definition re_star :: "(char \<Rightarrow> bool) \<Rightarrow> regex" where
  "re_star P text pos =
     (let p = re_pos text pos;
          g = takeWhile P (drop p text)
      in Some \<lparr>m_end = int p + int (length g), m_group = g\<rparr>)"

definition re_plus :: "(char \<Rightarrow> bool) \<Rightarrow> regex" where
  "re_plus P text pos =
     (case re_star P text pos of
        None \<Rightarrow> None
      | Some m \<Rightarrow> if m_group m = [] then None else Some m)"

definition lower :: "char \<Rightarrow> bool" where
  "lower c \<longleftrightarrow> c \<in> set ''abcdefghijklmnopqrstuvwxyz''"

definition digit :: "char \<Rightarrow> bool" where
  "digit c \<longleftrightarrow> c \<in> set ''0123456789''"

text \<open>The callback \<^verbatim>\<open>int\<close> on a string of decimal digits.\<close>

definition py_int :: "string \<Rightarrow> pyval" where
  "py_int s = PyInt (foldl (\<lambda>acc c. 10 * acc + (of_char c - 48)) 0 s)"

text \<open>Scenario 3 of the specification: \<^verbatim>\<open>KEYWORD=for\<close> and \<^verbatim>\<open>WORD=[a-z]+\<close>.\<close>

definition KEYWORD :: TokenTemplate where
  "KEYWORD = \<lparr>tt_token_type = ''KEYWORD'', regular_expression = re_literal ''for'',
              callback = None\<rparr>"

definition WORD :: TokenTemplate where
  "WORD = \<lparr>tt_token_type = ''WORD'', regular_expression = re_plus lower, callback = None\<rparr>"

text \<open>
  From the module's docstring: \<^verbatim>\<open>TokenTemplate('LITERAL', r'\d+', int)\<close> and
  \<^verbatim>\<open>TokenTemplate("NEWLINE", r"\n", lambda _: "\n")\<close>; beside them a single digit
  \<^verbatim>\<open>1\<close>, a run of newlines \<^verbatim>\<open>\n+\<close> with the same callback, and a run of blanks
  \<^verbatim>\<open>[ ]*\<close> that may be empty.
\<close>

definition LITERAL :: TokenTemplate where
  "LITERAL = \<lparr>tt_token_type = ''LITERAL'', regular_expression = re_plus digit,
              callback = Some py_int\<rparr>"

definition ONE :: TokenTemplate where
  "ONE = \<lparr>tt_token_type = ''ONE'', regular_expression = re_literal ''1'', callback = None\<rparr>"

definition NEWLINE_T :: TokenTemplate where
  "NEWLINE_T = \<lparr>tt_token_type = ''NEWLINE'', regular_expression = re_literal [NEWLINE],
                callback = Some (\<lambda>_. PyStr [NEWLINE])\<rparr>"

definition NEWLINES :: TokenTemplate where
  "NEWLINES = \<lparr>tt_token_type = ''NEWLINES'', regular_expression = re_plus (\<lambda>c. c = NEWLINE),
               callback = Some (\<lambda>_. PyStr [NEWLINE])\<rparr>"

definition BLANKS :: TokenTemplate where
  "BLANKS = \<lparr>tt_token_type = ''BLANKS'', regular_expression = re_star (\<lambda>c. c = CHR '' ''),
             callback = Some (\<lambda>_. PyStr '' '')\<rparr>"

text \<open>
  Scenario 5: a pattern that matches the three lines \<^verbatim>\<open>a\nb\nEND\<close>; a single blank; and
  the tokens of \<^verbatim>\<open>ab cd\<close> under \<^verbatim>\<open>WORD\<close> and \<^verbatim>\<open>SPACE\<close>.
\<close>

definition BLOCK :: TokenTemplate where
  "BLOCK = \<lparr>tt_token_type = ''BLOCK'',
            regular_expression = re_literal [CHR ''a'', NEWLINE, CHR ''b'', NEWLINE, CHR ''E'', CHR ''N'', CHR ''D''],
            callback = None\<rparr>"

definition SPACE :: TokenTemplate where
  "SPACE = \<lparr>tt_token_type = ''SPACE'', regular_expression = re_literal '' '', callback = None\<rparr>"

definition ab_cd :: "Token list" where
  "ab_cd =
     [\<lparr>token_type = ''WORD'', lexeme = PyStr ''ab'', start = 0, end_pos = 2, line = 1, column = 1\<rparr>,
      \<lparr>token_type = ''SPACE'', lexeme = PyStr '' '', start = 2, end_pos = 3, line = 1, column = 3\<rparr>,
      \<lparr>token_type = ''WORD'', lexeme = PyStr ''cd'', start = 3, end_pos = 5, line = 1, column = 4\<rparr>]"

subsection \<open>Invariants of the scan\<close>

text \<open>
  What holds of the counter whenever the loop tests it, given patterns that keep the
  library's promise: the offset lies in the text, the line is one more than the number of
  newlines before the offset, and the column is at least 1.
\<close>

definition pc_inv :: "string \<Rightarrow> ProgramCounter \<Rightarrow> bool" where
  "pc_inv tx pc \<longleftrightarrow>
     0 \<le> pc_start pc \<and> pc_start pc \<le> int (length tx) \<and>
     pc_line pc = 1 + int (count_list (take (nat (pc_start pc)) tx) NEWLINE) \<and>
     1 \<le> pc_column pc"

definition lexer_inv :: "string \<Rightarrow> Lexer \<Rightarrow> bool" where
  "lexer_inv tx lx \<longleftrightarrow>
     (\<forall>t\<in>set (templates lx). re_contract (regular_expression t)) \<and> pc_inv tx (line_counter lx)"

text \<open>
  How a run of the loop that returns \<open>r\<close> stopped: after some number of passes, at the end
  of the text or at a pass that raised.
\<close>

definition loop_stopped :: "string \<Rightarrow> Lexer \<Rightarrow> error option \<times> Lexer \<Rightarrow> bool" where
  "loop_stopped tx lx r \<longleftrightarrow>
     (\<exists>n. steps n tx lx = Some (snd r) \<and>
          (case fst r of None \<Rightarrow> at_end tx (snd r)
           | Some e \<Rightarrow> \<not> at_end tx (snd r) \<and> loop_body tx (snd r) = Inl e))"

text \<open>
  The spans of a token list form a chain from \<open>s\<close> to \<open>e\<close>: each token starts where the
  one before it ended.
\<close>

fun spans_chain :: "int \<Rightarrow> Token list \<Rightarrow> int \<Rightarrow> bool" where
  "spans_chain s [] e \<longleftrightarrow> s = e"
| "spans_chain s (t # ts) e \<longleftrightarrow> start t = s \<and> spans_chain (end_pos t) ts e"

section \<open>Properties\<close>

subsection \<open>The concrete patterns keep the library's promise\<close>

lemma re_pos_in_range: "0 \<le> pos \<Longrightarrow> pos \<le> int (length tx) \<Longrightarrow> int (re_pos tx pos) = pos"
  by (simp add: re_pos_def)

lemma re_contract_literal: "re_contract (re_literal s)"
  unfolding re_contract_def
proof (intro allI impI)
  fix tx pos m
  assume p: "0 \<le> pos" "pos \<le> int (length tx)" and r: "re_literal s tx pos = Some m"
  note ip = re_pos_in_range [OF p]
  from p have np: "re_pos tx pos = nat pos" by (simp add: re_pos_def)
  from r p have t: "take (length s) (drop (nat pos) tx) = s"
    and m: "m_end m = pos + int (length s)" "m_group m = s"
    by (auto simp: re_literal_def Let_def ip np split: if_splits)
  have "length (take (length s) (drop (nat pos) tx)) = length s"
    using t by simp
  then have "length s \<le> length tx - nat pos"
    by simp
  with p have "int (length s) \<le> int (length tx) - pos" by linarith
  with m t show "pos \<le> m_end m \<and> m_end m \<le> int (length tx) \<and>
      m_group m = take (nat (m_end m - pos)) (drop (nat pos) tx)"
    by simp
qed

lemma re_contract_star: "re_contract (re_star P)"
  unfolding re_contract_def
proof (intro allI impI)
  fix tx pos m
  assume p: "0 \<le> pos" "pos \<le> int (length tx)" and r: "re_star P tx pos = Some m"
  let ?g = "takeWhile P (drop (nat pos) tx)"
  note ip = re_pos_in_range [OF p]
  from p have np: "re_pos tx pos = nat pos" by (simp add: re_pos_def)
  from r p have m: "m_end m = pos + int (length ?g)" "m_group m = ?g"
    by (auto simp: re_star_def Let_def ip np)
  have "length ?g \<le> length (drop (nat pos) tx)"
    by (rule length_takeWhile_le)
  with p have le: "int (length ?g) \<le> int (length tx) - pos" by simp
  have "?g = take (length ?g) (drop (nat pos) tx)"
    by (rule takeWhile_eq_take)
  with m le show "pos \<le> m_end m \<and> m_end m \<le> int (length tx) \<and>
      m_group m = take (nat (m_end m - pos)) (drop (nat pos) tx)"
    by simp
qed

lemma re_contract_plus: "re_contract (re_plus P)"
  using re_contract_star [of P]
  by (auto simp: re_contract_def re_plus_def split: option.splits if_splits)

lemma re_contract_length:
  assumes "re_contract rx" "0 \<le> pos" "pos \<le> int (length tx)" "rx tx pos = Some m"
  shows "int (length (m_group m)) = m_end m - pos"
proof -
  from assms have h: "pos \<le> m_end m" "m_end m \<le> int (length tx)"
    "m_group m = take (nat (m_end m - pos)) (drop (nat pos) tx)"
    unfolding re_contract_def by blast+
  have "length (m_group m) = min (nat (m_end m - pos)) (length tx - nat pos)"
    by (subst h(3)) simp
  with h(1,2) assms(2) show ?thesis by linarith
qed

text \<open>
  Unfolding sets for running the lexer on a concrete text.
\<close>

lemmas step_defs =
  at_end_def loop_body_def match_def Lexer_init_def ProgramCounter_init_def token_truthy_def
  token_len_def best_def lexer_accept_def accept_def re_pos_def re_literal_def re_plus_def
  re_star_def lower_def digit_def NEWLINE_def Let_def

lemmas run_defs =
  tokenize_def tokenize_loop.simps raise_UnknownSymbolError_def py_index_def step_defs

lemmas template_defs =
  KEYWORD_def WORD_def LITERAL_def ONE_def NEWLINE_T_def NEWLINES_def BLANKS_def SPACE_def
  BLOCK_def

subsection \<open>Matching one template\<close>

lemma scan_newlines_eq:
  "scan_newlines s (ln, col) =
     (ln + int (count_list s NEWLINE), if NEWLINE \<in> set s then 1 else col)"
  by (induction s arbitrary: ln col) auto

lemma match_Some:
  "regular_expression t tx st = Some m \<Longrightarrow>
   match t tx st ln col =
     Some \<lparr>token_type = tt_token_type t,
           lexeme = (case callback t of None \<Rightarrow> PyStr (m_group m) | Some f \<Rightarrow> f (m_group m)),
           start = st, end_pos = m_end m,
           line = ln + int (count_list (m_group m) NEWLINE),
           column = (if NEWLINE \<in> set (m_group m) then 1 else col)\<rparr>"
  by (simp add: match_def scan_newlines_eq Let_def)

lemma match_None: "match t tx st ln col = None \<longleftrightarrow> regular_expression t tx st = None"
  by (cases "regular_expression t tx st") (simp_all add: match_def Let_def split: prod.splits)

text \<open>
  Claim C5 (newline accounting).  When the pattern matches, the token's line is the line
  passed in plus the number of newline characters in the raw matched substring, so a match
  over several lines reports the line it ends on; if the match holds a newline the
  token's column is 1 whatever column was passed in, and otherwise the column is the one
  passed in.
\<close>

theorem match_newline_accounting:
  assumes "regular_expression t tx st = Some m"
  shows "\<exists>tok. match t tx st ln col = Some tok \<and>
           line tok = ln + int (count_list (m_group m) NEWLINE) \<and>
           (NEWLINE \<in> set (m_group m) \<longrightarrow> column tok = 1) \<and>
           (NEWLINE \<notin> set (m_group m) \<longrightarrow> column tok = col)"
  using assms by (simp add: match_Some)

text \<open>
  Scenario 5 of the specification, begun at offset 1, line 1, column 2: the token is on
  line 3, column 1.
\<close>

theorem match_newline_accounting_witness:
  "\<exists>tok. match BLOCK [CHR ''x'', CHR ''a'', NEWLINE, CHR ''b'', NEWLINE, CHR ''E'', CHR ''N'', CHR ''D''] 1 1 2 = Some tok \<and>
     line tok = 3 \<and> column tok = 1"
  using match_newline_accounting [of BLOCK "[CHR ''x'', CHR ''a'', NEWLINE, CHR ''b'', NEWLINE, CHR ''E'', CHR ''N'', CHR ''D'']" 1
     "\<lparr>m_end = 8, m_group = [CHR ''a'', NEWLINE, CHR ''b'', NEWLINE, CHR ''E'', CHR ''N'', CHR ''D'']\<rparr>" 1 2]
  by (simp add: BLOCK_def re_literal_def re_pos_def Let_def NEWLINE_def)

text \<open>
  Claim C8 (anchored matching), for an offset inside the text and a pattern that keeps
  the library's promise.  \<open>match\<close> fails exactly when the pattern does not match at the
  offset, returning \<open>None\<close> and no error.  On success the raw matched substring is the slice
  of the text from the offset to the token's end, so it begins exactly at the offset; the
  token starts at the offset, \<open>end - start\<close> is the length of the raw substring, and the
  lexeme is the callback applied to the raw substring, or the raw substring when there is
  no callback.
\<close>

theorem match_anchored:
  assumes "re_contract (regular_expression t)" "0 \<le> st" "st \<le> int (length tx)"
  shows "(match t tx st ln col = None \<longleftrightarrow> regular_expression t tx st = None) \<and>
   (\<forall>m. regular_expression t tx st = Some m \<longrightarrow>
      (\<exists>tok. match t tx st ln col = Some tok \<and> start tok = st \<and> end_pos tok = m_end m \<and>
         st \<le> end_pos tok \<and> end_pos tok \<le> int (length tx) \<and>
         m_group m = take (nat (end_pos tok - st)) (drop (nat st) tx) \<and>
         end_pos tok - start tok = int (length (m_group m)) \<and>
         token_type tok = tt_token_type t \<and>
         lexeme tok = (case callback t of None \<Rightarrow> PyStr (m_group m) | Some f \<Rightarrow> f (m_group m))))"
proof (intro conjI allI impI)
  show "match t tx st ln col = None \<longleftrightarrow> regular_expression t tx st = None"
    by (rule match_None)
next
  fix m
  assume rx: "regular_expression t tx st = Some m"
  from assms rx have h: "st \<le> m_end m" "m_end m \<le> int (length tx)"
    "m_group m = take (nat (m_end m - st)) (drop (nat st) tx)"
    unfolding re_contract_def by blast+
  with re_contract_length [OF assms rx] rx
  show "\<exists>tok. match t tx st ln col = Some tok \<and> start tok = st \<and> end_pos tok = m_end m \<and>
         st \<le> end_pos tok \<and> end_pos tok \<le> int (length tx) \<and>
         m_group m = take (nat (end_pos tok - st)) (drop (nat st) tx) \<and>
         end_pos tok - start tok = int (length (m_group m)) \<and>
         token_type tok = tt_token_type t \<and>
         lexeme tok = (case callback t of None \<Rightarrow> PyStr (m_group m) | Some f \<Rightarrow> f (m_group m))"
    by (simp add: match_Some)
qed

text \<open>
  \<^verbatim>\<open>[a-z]+\<close> on \<^verbatim>\<open>ab cd\<close>: no match at the blank at offset 2, although a word follows
  at offset 3; there the match is \<^verbatim>\<open>cd\<close>, of span 2.
\<close>

theorem match_anchored_witness:
  "match WORD ''ab cd'' 2 1 3 = None \<and>
   match WORD ''ab cd'' 3 1 4 = Some (ab_cd ! 2) \<and>
   end_pos (ab_cd ! 2) - start (ab_cd ! 2) = int (length ''cd'') \<and>
   ''cd'' = take 2 (drop 3 ''ab cd'')"
proof -
  have c: "re_contract (regular_expression WORD)"
    by (simp add: WORD_def re_contract_plus)
  have n: "regular_expression WORD ''ab cd'' 2 = None"
    by (simp add: WORD_def re_plus_def re_star_def re_pos_def lower_def Let_def)
  have s: "regular_expression WORD ''ab cd'' 3 = Some \<lparr>m_end = 5, m_group = ''cd''\<rparr>"
    by (simp add: WORD_def re_plus_def re_star_def re_pos_def lower_def Let_def)
  have t: "match WORD ''ab cd'' 3 1 4 = Some (ab_cd ! 2)"
    by (simp add: step_defs WORD_def ab_cd_def)
  from match_anchored [OF c, of 2 "''ab cd''" 1 3]
    match_anchored [OF c, of 3 "''ab cd''" 1 4] n s t
  show ?thesis
    by (simp add: ab_cd_def)
qed

text \<open>
  At an offset outside the text the equation between \<open>end - start\<close> and the raw length
  fails: the token keeps the offset it was given, and the library starts inside the text.
  \<^verbatim>\<open>[a-z]+\<close> on \<^verbatim>\<open>ab\<close> at offset -1 gives start -1 and end 2 for a raw substring of
  length 2; \<^verbatim>\<open>[ ]*\<close> on \<^verbatim>\<open>a\<close> at offset 5 gives start 5 and end 1 for an empty one.
\<close>

theorem match_anchored_counterexample:
  "match WORD ''ab'' (- 1) 1 1 =
     Some \<lparr>token_type = ''WORD'', lexeme = PyStr ''ab'', start = - 1, end_pos = 2,
           line = 1, column = 1\<rparr> \<and>
   regular_expression WORD ''ab'' (- 1) = Some \<lparr>m_end = 2, m_group = ''ab''\<rparr> \<and>
   end_pos \<lparr>token_type = ''WORD'', lexeme = PyStr ''ab'', start = - 1, end_pos = 2,
            line = 1, column = 1\<rparr> -
   start \<lparr>token_type = ''WORD'', lexeme = PyStr ''ab'', start = - 1, end_pos = 2,
          line = 1, column = 1\<rparr> \<noteq> int (length (m_group \<lparr>m_end = 2, m_group = ''ab''\<rparr>)) \<and>
   match BLANKS ''a'' 5 1 1 =
     Some \<lparr>token_type = ''BLANKS'', lexeme = PyStr '' '', start = 5, end_pos = 1,
           line = 1, column = 1\<rparr> \<and>
   regular_expression BLANKS ''a'' 5 = Some \<lparr>m_end = 1, m_group = []\<rparr> \<and>
   end_pos \<lparr>token_type = ''BLANKS'', lexeme = PyStr '' '', start = 5, end_pos = 1,
            line = 1, column = 1\<rparr> -
   start \<lparr>token_type = ''BLANKS'', lexeme = PyStr '' '', start = 5, end_pos = 1,
          line = 1, column = 1\<rparr> \<noteq> int (length (m_group \<lparr>m_end = 1, m_group = []\<rparr>))"
  by (simp add: match_def WORD_def BLANKS_def re_plus_def re_star_def re_pos_def lower_def
      NEWLINE_def Let_def)

subsection \<open>The counter\<close>

text \<open>
  Claim C6 (tracker accept).  \<open>accept\<close> sets the column to 1 if the token's line differs
  from the counter's, and adds \<open>end - start\<close> to it otherwise; it sets the offset to the
  token's end and the line to the token's line.  \<open>current\<close> only reads the counter, and a
  pass of the loop changes the counter of the lexer by one \<open>accept\<close> of the token it
  appends, and in no other way.
\<close>

theorem accept_semantics:
  "pc_column (accept pc tok) =
     (if line tok \<noteq> pc_line pc then 1 else pc_column pc + (end_pos tok - start tok)) \<and>
   pc_start (accept pc tok) = end_pos tok \<and>
   pc_line (accept pc tok) = line tok \<and>
   current pc = (pc_line pc, pc_start pc, pc_column pc) \<and>
   (\<forall>lx'. loop_body tx lx = Inr lx' \<longrightarrow>
      (\<exists>b. line_counter lx' = accept (line_counter lx) b \<and> tokens lx' = tokens lx @ [b] \<and>
           templates lx' = templates lx))"
  by (auto simp: accept_def Let_def current_def loop_body_def lexer_accept_def
      split: sum.splits option.splits if_splits)

text \<open>
  Accepting the blank of \<^verbatim>\<open>ab cd\<close> at column 3 gives column 4; the same token on another
  line gives column 1.
\<close>

theorem accept_semantics_witness:
  "accept \<lparr>pc_start = 2, pc_line = 1, pc_column = 3\<rparr> (ab_cd ! 1) =
     \<lparr>pc_start = 3, pc_line = 1, pc_column = 4\<rparr> \<and>
   pc_column (accept \<lparr>pc_start = 2, pc_line = 1, pc_column = 3\<rparr>
                ((ab_cd ! 1)\<lparr>line := 2\<rparr>)) = 1"
  using accept_semantics [of "\<lparr>pc_start = 2, pc_line = 1, pc_column = 3\<rparr>" "ab_cd ! 1"
      "''ab cd''" "Lexer_init [WORD]"]
    accept_semantics [of "\<lparr>pc_start = 2, pc_line = 1, pc_column = 3\<rparr>" "(ab_cd ! 1)\<lparr>line := 2\<rparr>"
      "''ab cd''" "Lexer_init [WORD]"]
  by (simp add: ab_cd_def accept_def)

subsection \<open>Choosing among the templates\<close>

lemma best_cases: "best b other = Inr r \<Longrightarrow> r = b \<or> r = other"
  by (auto simp: best_def split: sum.splits if_splits)

lemma best_str:
  "lexeme a = PyStr sa \<Longrightarrow> lexeme b = PyStr sb \<Longrightarrow>
   best a b = Inr (if length sa > length sb then a else b)"
  by (simp add: best_def)

lemma scan_templates_cases:
  "scan_templates ts tx pc b0 = Inr (Some b) \<Longrightarrow>
     b0 = Some b \<or>
     (\<exists>t\<in>set ts. match t tx (pc_start pc) (pc_line pc) (pc_column pc) = Some b \<and> token_truthy b)"
proof (induction ts arbitrary: b0)
  case Nil
  then show ?case by simp
next
  case (Cons t ts)
  show ?case
  proof (cases "match t tx (pc_start pc) (pc_line pc) (pc_column pc)")
    case None
    with Cons show ?thesis by auto
  next
    case (Some tok)
    show ?thesis
    proof (cases "token_truthy tok")
      case False
      with Cons Some show ?thesis by auto
    next
      case True
      note tr = this
      show ?thesis
      proof (cases b0)
        case None
        with Cons.prems Some tr have "scan_templates ts tx pc (Some tok) = Inr (Some b)" by simp
        from Cons.IH [OF this] Some tr show ?thesis by auto
      next
        case (Some bt)
        note b0 = this
        show ?thesis
        proof (cases "token_truthy bt")
          case False
          with Cons.prems \<open>match t tx _ _ _ = Some tok\<close> tr b0
          have "scan_templates ts tx pc (Some tok) = Inr (Some b)" by simp
          from Cons.IH [OF this] \<open>match t tx _ _ _ = Some tok\<close> tr show ?thesis by auto
        next
          case True
          with Cons.prems \<open>match t tx _ _ _ = Some tok\<close> tr b0
          obtain b' where b': "best bt tok = Inr b'"
            and sc: "scan_templates ts tx pc (Some b') = Inr (Some b)"
            by (auto split: sum.splits)
          from Cons.IH [OF sc] best_cases [OF b'] \<open>match t tx _ _ _ = Some tok\<close> tr b0
          show ?thesis by auto
        qed
      qed
    qed
  qed
qed

lemma scan_templates_no_match:
  "\<forall>t\<in>set ts. match t tx (pc_start pc) (pc_line pc) (pc_column pc) = None \<Longrightarrow>
   scan_templates ts tx pc b0 = Inr b0"
  by (induction ts arbitrary: b0) auto

lemma scan_templates_keep:
  assumes "token_truthy b" "lexeme b = PyStr s"
    and "\<forall>u\<in>set post. \<forall>tok. match u tx (pc_start pc) (pc_line pc) (pc_column pc) = Some tok \<longrightarrow>
           token_truthy tok \<longrightarrow> (\<exists>s'. lexeme tok = PyStr s' \<and> length s' < length s)"
  shows "scan_templates post tx pc (Some b) = Inr (Some b)"
  using assms(3)
proof (induction post)
  case Nil
  then show ?case by simp
next
  case (Cons u post)
  then have ih: "scan_templates post tx pc (Some b) = Inr (Some b)" by simp
  show ?case
  proof (cases "match u tx (pc_start pc) (pc_line pc) (pc_column pc)")
    case None
    with ih show ?thesis by simp
  next
    case (Some tok)
    show ?thesis
    proof (cases "token_truthy tok")
      case False
      with Some ih show ?thesis by simp
    next
      case True
      with Some Cons.prems obtain s' where "lexeme tok = PyStr s'" "length s' < length s"
        by auto
      with assms(1,2) have "best b tok = Inr b" by (simp add: best_str)
      with Some True assms(1) ih show ?thesis by simp
    qed
  qed
qed

lemma scan_templates_winner:
  assumes m: "match t tx (pc_start pc) (pc_line pc) (pc_column pc) = Some b"
    and tr: "token_truthy b" and lb: "lexeme b = PyStr s"
    and post: "\<forall>u\<in>set post. \<forall>tok. match u tx (pc_start pc) (pc_line pc) (pc_column pc) = Some tok \<longrightarrow>
           token_truthy tok \<longrightarrow> (\<exists>s'. lexeme tok = PyStr s' \<and> length s' < length s)"
  shows "\<forall>u\<in>set pre. \<forall>tok. match u tx (pc_start pc) (pc_line pc) (pc_column pc) = Some tok \<longrightarrow>
           token_truthy tok \<longrightarrow> (\<exists>s'. lexeme tok = PyStr s' \<and> length s' \<le> length s) \<Longrightarrow>
         acc = None \<or> (\<exists>a sa. acc = Some a \<and> token_truthy a \<and> lexeme a = PyStr sa \<and>
                               length sa \<le> length s) \<Longrightarrow>
         scan_templates (pre @ t # post) tx pc acc = Inr (Some b)"
proof (induction pre arbitrary: acc)
  case Nil
  note keep = scan_templates_keep [OF tr lb post]
  from Nil(2) show ?case
  proof
    assume "acc = None"
    with m tr keep show ?thesis by simp
  next
    assume "\<exists>a sa. acc = Some a \<and> token_truthy a \<and> lexeme a = PyStr sa \<and> length sa \<le> length s"
    then obtain a sa where a: "acc = Some a" "token_truthy a" "lexeme a = PyStr sa"
      "length sa \<le> length s" by blast
    with lb have "best a b = Inr b" by (simp add: best_str)
    with a m tr keep show ?thesis by simp
  qed
next
  case (Cons u pre)
  from Cons.prems(1) have pre': "\<forall>u\<in>set pre. \<forall>tok.
      match u tx (pc_start pc) (pc_line pc) (pc_column pc) = Some tok \<longrightarrow>
      token_truthy tok \<longrightarrow> (\<exists>s'. lexeme tok = PyStr s' \<and> length s' \<le> length s)"
    by simp
  note ih = Cons.IH [OF pre']
  show ?case
  proof (cases "match u tx (pc_start pc) (pc_line pc) (pc_column pc)")
    case None
    with ih [OF Cons.prems(2)] show ?thesis by simp
  next
    case (Some tok)
    show ?thesis
    proof (cases "token_truthy tok")
      case False
      with Some ih [OF Cons.prems(2)] show ?thesis by simp
    next
      case True
      with Some Cons.prems(1) obtain s' where s': "lexeme tok = PyStr s'" "length s' \<le> length s"
        by auto
      from Cons.prems(2) show ?thesis
      proof
        assume "acc = None"
        moreover have "scan_templates (pre @ t # post) tx pc (Some tok) = Inr (Some b)"
          using True s' by (intro ih) simp
        ultimately show ?thesis using Some True by simp
      next
        assume "\<exists>a sa. acc = Some a \<and> token_truthy a \<and> lexeme a = PyStr sa \<and> length sa \<le> length s"
        then obtain a sa where a: "acc = Some a" "token_truthy a" "lexeme a = PyStr sa"
          "length sa \<le> length s" by blast
        let ?w = "if length sa > length s' then a else tok"
        from a s' have bst: "best a tok = Inr ?w" by (simp add: best_str)
        have "scan_templates (pre @ t # post) tx pc (Some ?w) = Inr (Some b)"
          using True s' a by (intro ih) auto
        with a Some True bst show ?thesis by simp
      qed
    qed
  qed
qed

lemma loop_body_Inr:
  assumes "loop_body tx lx = Inr lx'"
  shows "\<exists>t\<in>set (templates lx). \<exists>b.
           match t tx (pc_start (line_counter lx)) (pc_line (line_counter lx))
             (pc_column (line_counter lx)) = Some b \<and>
           token_truthy b \<and> lx' = lexer_accept lx b"
proof -
  from assms obtain b where
    sc: "scan_templates (templates lx) tx (line_counter lx) None = Inr (Some b)"
    and lx': "lx' = lexer_accept lx b"
    by (auto simp: loop_body_def Let_def split: sum.splits option.splits if_splits)
  from scan_templates_cases [OF sc] lx' show ?thesis by auto
qed

lemma loop_body_last:
  assumes "loop_body tx lx = Inr lx'"
  shows "tokens lx' = tokens lx @ [last (tokens lx')] \<and>
         start (last (tokens lx')) = pc_start (line_counter lx) \<and>
         end_pos (last (tokens lx')) = pc_start (line_counter lx')"
proof -
  from loop_body_Inr [OF assms] obtain t b where
    m: "match t tx (pc_start (line_counter lx)) (pc_line (line_counter lx))
              (pc_column (line_counter lx)) = Some b"
    and lx': "lx' = lexer_accept lx b"
    by blast
  from m have "start b = pc_start (line_counter lx)"
    by (auto simp: match_def Let_def split: option.splits prod.splits)
  with lx' show ?thesis
    by (simp add: lexer_accept_def accept_def Let_def)
qed

lemma loop_body_same_counter:
  assumes "templates lx2 = templates lx" "line_counter lx2 = line_counter lx"
    and "loop_body tx lx = Inr lx'"
  shows "\<exists>b. lx' = lexer_accept lx b \<and> loop_body tx lx2 = Inr (lexer_accept lx2 b)"
  using assms
  by (auto simp: loop_body_def Let_def split: sum.splits option.splits if_splits)

subsection \<open>The loop\<close>

lemma accept_inv:
  assumes c: "re_contract (regular_expression t)"
    and inv: "pc_inv tx pc"
    and m: "match t tx (pc_start pc) (pc_line pc) (pc_column pc) = Some b"
  shows "pc_inv tx (accept pc b) \<and> pc_start pc \<le> pc_start (accept pc b)"
proof -
  from m obtain mm where rx: "regular_expression t tx (pc_start pc) = Some mm"
    by (cases "regular_expression t tx (pc_start pc)") (auto simp: match_def)
  from inv have s0: "0 \<le> pc_start pc" and s1: "pc_start pc \<le> int (length tx)"
    and ln: "pc_line pc = 1 + int (count_list (take (nat (pc_start pc)) tx) NEWLINE)"
    and cl: "1 \<le> pc_column pc"
    by (auto simp: pc_inv_def)
  from c s0 s1 rx have e0: "pc_start pc \<le> m_end mm" and e1: "m_end mm \<le> int (length tx)"
    and g: "m_group mm = take (nat (m_end mm - pc_start pc)) (drop (nat (pc_start pc)) tx)"
    unfolding re_contract_def by blast+
  from m rx have b: "start b = pc_start pc" "end_pos b = m_end mm"
    "line b = pc_line pc + int (count_list (m_group mm) NEWLINE)"
    by (auto simp: match_Some)
  have "take (nat (m_end mm)) tx =
        take (nat (pc_start pc)) tx @ take (nat (m_end mm - pc_start pc)) (drop (nat (pc_start pc)) tx)"
    using e0 s0 by (metis take_add nat_add_distrib diff_ge_0_iff_ge le_add_diff_inverse)
  then have "count_list (take (nat (m_end mm)) tx) NEWLINE =
        count_list (take (nat (pc_start pc)) tx) NEWLINE + count_list (m_group mm) NEWLINE"
    by (simp add: g)
  with b ln s0 s1 e0 e1 cl show ?thesis
    by (auto simp: pc_inv_def accept_def Let_def)
qed

lemma loop_body_inv:
  assumes "lexer_inv tx lx" "loop_body tx lx = Inr lx'"
  shows "lexer_inv tx lx' \<and> templates lx' = templates lx \<and>
         pc_start (line_counter lx) \<le> pc_start (line_counter lx')"
proof -
  from loop_body_Inr [OF assms(2)] obtain t b where
    t: "t \<in> set (templates lx)"
    and m: "match t tx (pc_start (line_counter lx)) (pc_line (line_counter lx))
              (pc_column (line_counter lx)) = Some b"
    and lx': "lx' = lexer_accept lx b"
    by blast
  from assms(1) t have c: "re_contract (regular_expression t)" and i: "pc_inv tx (line_counter lx)"
    by (auto simp: lexer_inv_def)
  from accept_inv [OF c i m] assms(1) lx' show ?thesis
    by (simp add: lexer_inv_def lexer_accept_def)
qed

lemma steps_inv:
  "lexer_inv tx lx \<Longrightarrow> steps n tx lx = Some lx' \<Longrightarrow>
   lexer_inv tx lx' \<and> templates lx' = templates lx"
proof (induction n arbitrary: lx)
  case 0
  then show ?case by simp
next
  case (Suc n)
  from Suc.prems(2) obtain lx1 where b: "loop_body tx lx = Inr lx1"
    and s: "steps n tx lx1 = Some lx'"
    by (auto split: if_splits sum.splits)
  from loop_body_inv [OF Suc.prems(1) b] Suc.IH [OF _ s] show ?case by simp
qed

lemma init_inv: "pc_inv tx ProgramCounter_init"
  by (simp add: pc_inv_def ProgramCounter_init_def)

lemma fresh_inv:
  "\<forall>t\<in>set (templates lx). re_contract (regular_expression t) \<Longrightarrow>
   lexer_inv tx (lx\<lparr>tokens := [], line_counter := ProgramCounter_init\<rparr>)"
  by (simp add: lexer_inv_def init_inv)

lemma tokenize_loop_steps:
  "steps n tx lx = Some lx' \<Longrightarrow> tokenize_loop tx lx = tokenize_loop tx lx'"
proof (induction n arbitrary: lx)
  case 0
  then show ?case by simp
next
  case (Suc n)
  from Suc.prems obtain lx1 where e: "\<not> at_end tx lx" and b: "loop_body tx lx = Inr lx1"
    and s: "steps n tx lx1 = Some lx'"
    by (auto split: if_splits sum.splits)
  have "tokenize_loop tx lx = tokenize_loop tx lx1"
    using e b by (subst tokenize_loop.simps) simp
  with Suc.IH [OF s] show ?case by simp
qed

lemma steps_snoc:
  "steps n tx lx = Some lx1 \<Longrightarrow> \<not> at_end tx lx1 \<Longrightarrow> loop_body tx lx1 = Inr lx2 \<Longrightarrow>
   steps (Suc n) tx lx = Some lx2"
proof (induction n arbitrary: lx)
  case 0
  then show ?case by simp
next
  case (Suc n)
  from Suc.prems(1) obtain lx' where e: "\<not> at_end tx lx" and b: "loop_body tx lx = Inr lx'"
    and s: "steps n tx lx' = Some lx1"
    by (auto split: if_splits sum.splits)
  from Suc.IH [OF s Suc.prems(2,3)] e b show ?case by simp
qed

lemma tokenize_loop_Some_steps:
  assumes "tokenize_loop tx lx = Some r"
  shows "loop_stopped tx lx r"
proof (rule tokenize_loop.raw_induct [where P = loop_stopped, OF _ assms])
  fix loop tx lx r
  assume ih: "\<And>tx lx r. loop tx lx = Some r \<Longrightarrow> loop_stopped tx lx r"
    and eq: "(if at_end tx lx then Some (None, lx)
              else case loop_body tx lx of Inl e \<Rightarrow> Some (Some e, lx)
                   | Inr lx' \<Rightarrow> loop tx lx') = Some r"
  show "loop_stopped tx lx r"
  proof (cases "at_end tx lx")
    case True
    with eq have "r = (None, lx)" by simp
    with True have "steps 0 tx lx = Some (snd r) \<and>
       (case fst r of None \<Rightarrow> at_end tx (snd r)
        | Some e \<Rightarrow> \<not> at_end tx (snd r) \<and> loop_body tx (snd r) = Inl e)"
      by simp
    then show ?thesis unfolding loop_stopped_def by blast
  next
    case False
    note ne = this
    show ?thesis
    proof (cases "loop_body tx lx")
      case (Inl e)
      with ne eq have "r = (Some e, lx)" by simp
      with ne Inl have "steps 0 tx lx = Some (snd r) \<and>
         (case fst r of None \<Rightarrow> at_end tx (snd r)
          | Some e \<Rightarrow> \<not> at_end tx (snd r) \<and> loop_body tx (snd r) = Inl e)"
        by simp
      then show ?thesis unfolding loop_stopped_def by blast
    next
      case (Inr lx1)
      with ne eq have "loop tx lx1 = Some r" by simp
      from ih [OF this] obtain n where
        s: "steps n tx lx1 = Some (snd r)"
        and c: "(case fst r of None \<Rightarrow> at_end tx (snd r)
                 | Some e \<Rightarrow> \<not> at_end tx (snd r) \<and> loop_body tx (snd r) = Inl e)"
        unfolding loop_stopped_def by blast
      from s ne Inr have "steps (Suc n) tx lx = Some (snd r)" by simp
      with c show ?thesis unfolding loop_stopped_def by blast
    qed
  qed
qed

lemma length_split_newline: "length (split_newline s) = Suc (count_list s NEWLINE)"
  by (induction s) (auto split: list.splits)

lemma count_list_take_le: "count_list (take k s) x \<le> count_list s x"
  by (metis append_take_drop_id count_list_append le_add1)

lemma raise_UnknownSymbolError_inv:
  assumes "pc_inv tx pc"
  shows "raise_UnknownSymbolError tx (pc_line pc) (pc_column pc) =
           UnknownSymbolError (pc_line pc) (pc_column pc)
             (split_newline tx ! nat (pc_line pc - 1))"
proof -
  from assms have "pc_line pc = 1 + int (count_list (take (nat (pc_start pc)) tx) NEWLINE)"
    by (simp add: pc_inv_def)
  moreover have "count_list (take (nat (pc_start pc)) tx) NEWLINE \<le> count_list tx NEWLINE"
    by (rule count_list_take_le)
  ultimately show ?thesis
    by (simp add: raise_UnknownSymbolError_def py_index_def Let_def length_split_newline)
qed

lemma spans_chain_snoc:
  "spans_chain s (ts @ [t]) e \<longleftrightarrow> spans_chain s ts (start t) \<and> end_pos t = e"
  by (induction ts arbitrary: s) auto

lemma loop_body_chain:
  assumes "spans_chain s (tokens lx) (pc_start (line_counter lx))" "loop_body tx lx = Inr lx'"
  shows "spans_chain s (tokens lx') (pc_start (line_counter lx'))"
proof -
  from loop_body_Inr [OF assms(2)] obtain t b where
    m: "match t tx (pc_start (line_counter lx)) (pc_line (line_counter lx))
              (pc_column (line_counter lx)) = Some b"
    and lx': "lx' = lexer_accept lx b"
    by blast
  from m have "start b = pc_start (line_counter lx)"
    by (auto simp: match_def Let_def split: option.splits prod.splits)
  with assms(1) lx' show ?thesis
    by (simp add: lexer_accept_def spans_chain_snoc accept_def Let_def)
qed

lemma steps_chain:
  "spans_chain s (tokens lx) (pc_start (line_counter lx)) \<Longrightarrow> steps n tx lx = Some lx' \<Longrightarrow>
   spans_chain s (tokens lx') (pc_start (line_counter lx'))"
proof (induction n arbitrary: lx)
  case 0
  then show ?case by simp
next
  case (Suc n)
  from Suc.prems(2) obtain lx1 where b: "loop_body tx lx = Inr lx1"
    and s: "steps n tx lx1 = Some lx'"
    by (auto split: if_splits sum.splits)
  from Suc.IH [OF loop_body_chain [OF Suc.prems(1) b] s] show ?case .
qed

lemma spans_chain_index:
  "spans_chain s ts e \<Longrightarrow>
     (ts = [] \<longrightarrow> s = e) \<and>
     (ts \<noteq> [] \<longrightarrow> start (hd ts) = s \<and> end_pos (last ts) = e) \<and>
     (\<forall>i. Suc i < length ts \<longrightarrow> start (ts ! Suc i) = end_pos (ts ! i))"
proof (induction ts arbitrary: s)
  case Nil
  then show ?case by simp
next
  case (Cons t ts)
  then have c: "spans_chain (end_pos t) ts e" and st: "start t = s" by simp_all
  note ih = Cons.IH [OF c]
  have "start ((t # ts) ! Suc i) = end_pos ((t # ts) ! i)" if "Suc i < length (t # ts)" for i
  proof (cases i)
    case 0
    with that ih show ?thesis by (cases ts) auto
  next
    case (Suc j)
    with that ih show ?thesis by auto
  qed
  with ih st show ?case by (cases ts) auto
qed

lemma stuck_diverges:
  assumes ne: "\<not> at_end tx lx" and b: "loop_body tx lx = Inr lx'"
    and same: "line_counter lx' = line_counter lx"
  shows "tokenize_loop tx lx = None"
proof (rule ccontr)
  assume "tokenize_loop tx lx \<noteq> None"
  then obtain r where r: "tokenize_loop tx lx = Some r" by blast
  have "\<not> (tx' = tx \<and> templates lx2 = templates lx \<and> line_counter lx2 = line_counter lx)"
    if "tokenize_loop tx' lx2 = Some r'" for tx' lx2 r'
  proof (rule tokenize_loop.raw_induct
      [where P = "\<lambda>tx' lx2 r'. \<not> (tx' = tx \<and> templates lx2 = templates lx \<and>
                                  line_counter lx2 = line_counter lx)", OF _ that])
    fix loop tx' lx2 r'
    assume ih: "\<And>tx' lx2 r'. loop tx' lx2 = Some r' \<Longrightarrow>
        \<not> (tx' = tx \<and> templates lx2 = templates lx \<and> line_counter lx2 = line_counter lx)"
      and eq: "(if at_end tx' lx2 then Some (None, lx2)
                else case loop_body tx' lx2 of Inl e \<Rightarrow> Some (Some e, lx2)
                     | Inr lx' \<Rightarrow> loop tx' lx') = Some r'"
    show "\<not> (tx' = tx \<and> templates lx2 = templates lx \<and> line_counter lx2 = line_counter lx)"
    proof
      assume a: "tx' = tx \<and> templates lx2 = templates lx \<and> line_counter lx2 = line_counter lx"
      with ne have ne2: "\<not> at_end tx' lx2" by (simp add: at_end_def)
      from loop_body_same_counter [of lx2 lx tx lx'] a b obtain bt where
        l: "lx' = lexer_accept lx bt" and l2: "loop_body tx' lx2 = Inr (lexer_accept lx2 bt)"
        by auto
      from eq ne2 l2 have "loop tx' (lexer_accept lx2 bt) = Some r'" by simp
      from ih [OF this] a same l show False
        by (simp add: lexer_accept_def)
    qed
  qed
  from this [OF r] show False by simp
qed

lemma empty_token_same_counter:
  assumes inv: "lexer_inv tx lx" and b: "loop_body tx lx = Inr lx'"
    and e: "end_pos (last (tokens lx')) = start (last (tokens lx'))"
  shows "line_counter lx' = line_counter lx"
proof -
  let ?pc = "line_counter lx"
  from loop_body_Inr [OF b] obtain t bt where
    t: "t \<in> set (templates lx)"
    and m: "match t tx (pc_start ?pc) (pc_line ?pc) (pc_column ?pc) = Some bt"
    and lx': "lx' = lexer_accept lx bt"
    by blast
  from lx' have bt: "last (tokens lx') = bt" by (simp add: lexer_accept_def)
  from m obtain mm where rx: "regular_expression t tx (pc_start ?pc) = Some mm"
    by (cases "regular_expression t tx (pc_start ?pc)") (auto simp: match_def)
  from inv t have c: "re_contract (regular_expression t)"
    and s: "0 \<le> pc_start ?pc" "pc_start ?pc \<le> int (length tx)"
    by (auto simp: lexer_inv_def pc_inv_def)
  from m rx have f: "start bt = pc_start ?pc" "end_pos bt = m_end mm"
    "line bt = pc_line ?pc + int (count_list (m_group mm) NEWLINE)"
    by (auto simp: match_Some)
  from re_contract_length [OF c s rx] e bt f have "m_group mm = []" by simp
  with f e bt lx' show ?thesis
    by (simp add: lexer_accept_def accept_def Let_def)
qed

lemma progress_terminates:
  assumes inv: "lexer_inv tx lx"
    and prog: "\<forall>n lx1 lx2. steps n tx lx = Some lx1 \<longrightarrow> \<not> at_end tx lx1 \<longrightarrow>
                 loop_body tx lx1 = Inr lx2 \<longrightarrow>
                 pc_start (line_counter lx1) < pc_start (line_counter lx2)"
  shows "tokenize_loop tx lx \<noteq> None"
  using assms
proof (induction "nat (int (length tx) - pc_start (line_counter lx))" arbitrary: lx
    rule: less_induct)
  case less
  show ?case
  proof (cases "at_end tx lx")
    case True
    then show ?thesis by (subst tokenize_loop.simps) simp
  next
    case False
    note ne = this
    show ?thesis
    proof (cases "loop_body tx lx")
      case (Inl e)
      with ne show ?thesis by (subst tokenize_loop.simps) simp
    next
      case (Inr lx1)
      from loop_body_inv [OF less.prems(1) Inr] have inv1: "lexer_inv tx lx1" by simp
      have "steps 0 tx lx = Some lx" by simp
      with less.prems(2) ne Inr
      have lt: "pc_start (line_counter lx) < pc_start (line_counter lx1)" by blast
      from inv1 have "pc_start (line_counter lx1) \<le> int (length tx)"
        by (simp add: lexer_inv_def pc_inv_def)
      with lt have dec: "nat (int (length tx) - pc_start (line_counter lx1))
                       < nat (int (length tx) - pc_start (line_counter lx))"
        by linarith
      have "pc_start (line_counter la) < pc_start (line_counter lb)"
        if "steps n tx lx1 = Some la" "\<not> at_end tx la" "loop_body tx la = Inr lb" for n la lb
      proof -
        from that(1) ne Inr have "steps (Suc n) tx lx = Some la" by simp
        with less.prems(2) that(2,3) show ?thesis by blast
      qed
      then have prog1: "\<forall>n la lb. steps n tx lx1 = Some la \<longrightarrow> \<not> at_end tx la \<longrightarrow>
                 loop_body tx la = Inr lb \<longrightarrow>
                 pc_start (line_counter la) < pc_start (line_counter lb)"
        by blast
      from less.hyps [OF dec inv1 prog1] have "tokenize_loop tx lx1 \<noteq> None" .
      moreover have "tokenize_loop tx lx = tokenize_loop tx lx1"
        using ne Inr by (subst tokenize_loop.simps) simp
      ultimately show ?thesis by simp
    qed
  qed
qed

lemma steps_nonempty:
  "lexer_inv tx lx \<Longrightarrow> steps n tx lx = Some lx' \<Longrightarrow> tokenize_loop tx lx \<noteq> None \<Longrightarrow>
   \<forall>tok\<in>set (tokens lx). start tok < end_pos tok \<Longrightarrow>
   \<forall>tok\<in>set (tokens lx'). start tok < end_pos tok"
proof (induction n arbitrary: lx)
  case 0
  then show ?case by simp
next
  case (Suc n)
  from Suc.prems(2) obtain lx1 where e: "\<not> at_end tx lx" and b: "loop_body tx lx = Inr lx1"
    and s: "steps n tx lx1 = Some lx'"
    by (auto split: if_splits sum.splits)
  from loop_body_inv [OF Suc.prems(1) b] have inv1: "lexer_inv tx lx1"
    and le: "pc_start (line_counter lx) \<le> pc_start (line_counter lx1)" by simp_all
  have eq: "tokenize_loop tx lx = tokenize_loop tx lx1"
    using e b by (subst tokenize_loop.simps) simp
  let ?b = "last (tokens lx1)"
  from loop_body_last [OF b] have ts: "tokens lx1 = tokens lx @ [?b]"
    and st: "start ?b = pc_start (line_counter lx)"
    and en: "end_pos ?b = pc_start (line_counter lx1)" by simp_all
  have "end_pos ?b \<noteq> start ?b"
  proof
    assume "end_pos ?b = start ?b"
    from stuck_diverges [OF e b empty_token_same_counter [OF Suc.prems(1) b this]] Suc.prems(3)
    show False by simp
  qed
  with st en le have lt: "start ?b < end_pos ?b" by simp
  have "\<forall>tok\<in>set (tokens lx1). start tok < end_pos tok"
  proof
    fix tok
    assume "tok \<in> set (tokens lx1)"
    then have "tok \<in> set (tokens lx @ [?b])" using ts by simp
    then have "tok \<in> set (tokens lx) \<or> tok = ?b" by auto
    with lt Suc.prems(4) show "start tok < end_pos tok" by blast
  qed
  from Suc.IH [OF inv1 s _ this] eq Suc.prems(3) show ?case by simp
qed

lemma tokenize_loop_ab_cd:
  "tokenize_loop ''ab cd''
     \<lparr>templates = [WORD, SPACE], tokens = [], line_counter = ProgramCounter_init\<rparr> =
   Some (None, \<lparr>templates = [WORD, SPACE], tokens = ab_cd,
                 line_counter = \<lparr>pc_start = 5, pc_line = 1, pc_column = 6\<rparr>\<rparr>)"
  by (simp add: tokenize_loop.simps step_defs WORD_def SPACE_def ab_cd_def)

lemma tokenize_ab_cd:
  "tokenize (Lexer_init [WORD, SPACE]) ''ab cd'' ft =
     Some (Inr (filter (\<lambda>x. token_type x \<notin> set (case ft of None \<Rightarrow> [] | Some l \<Rightarrow> l)) ab_cd),
           \<lparr>templates = [WORD, SPACE], tokens = ab_cd,
             line_counter = \<lparr>pc_start = 5, pc_line = 1, pc_column = 6\<rparr>\<rparr>)"
  by (simp add: tokenize_def Lexer_init_def tokenize_loop_ab_cd)

subsection \<open>The choice made by a pass of the loop\<close>

lemma raw_token:
  assumes c: "re_contract (regular_expression u)"
    and r: "0 \<le> st" "st \<le> int (length tx)"
    and m: "match u tx st ln col = Some tok"
    and cb: "callback u = None"
  shows "\<exists>g. lexeme tok = PyStr g \<and> int (length g) = end_pos tok - start tok"
proof -
  from m obtain mm where rx: "regular_expression u tx st = Some mm"
    by (cases "regular_expression u tx st") (auto simp: match_def)
  from m rx cb have "lexeme tok = PyStr (m_group mm)" "start tok = st" "end_pos tok = m_end mm"
    by (auto simp: match_Some)
  with re_contract_length [OF c r rx] show ?thesis by simp
qed

text \<open>
  Claim C1 (tie-break), as the code has it.  Let the patterns keep the library's promise,
  and let the loop have reached a state after \<open>n\<close> passes.  Let a template without callback
  match there with a non-empty span; let every earlier template that matches there be
  without callback and have a span at most as long, and every later template that matches
  there be without callback and have a strictly shorter span.  Then the next pass accepts
  that template's token.  So among templates that tie on the greatest raw length it is the
  one declared latest that wins.
\<close>

theorem tie_break_latest:
  assumes c: "\<forall>u\<in>set (templates lx0). re_contract (regular_expression u)"
    and r: "steps n tx (lx0\<lparr>tokens := [], line_counter := ProgramCounter_init\<rparr>) = Some lx"
    and sp: "templates lx0 = pre @ t # post"
    and m: "match t tx (pc_start (line_counter lx)) (pc_line (line_counter lx))
              (pc_column (line_counter lx)) = Some b"
    and cb: "callback t = None"
    and ne: "start b < end_pos b"
    and pre: "\<forall>u\<in>set pre. \<forall>tok.
           match u tx (pc_start (line_counter lx)) (pc_line (line_counter lx))
             (pc_column (line_counter lx)) = Some tok \<longrightarrow>
           callback u = None \<and> end_pos tok - start tok \<le> end_pos b - start b"
    and post: "\<forall>u\<in>set post. \<forall>tok.
           match u tx (pc_start (line_counter lx)) (pc_line (line_counter lx))
             (pc_column (line_counter lx)) = Some tok \<longrightarrow>
           callback u = None \<and> end_pos tok - start tok < end_pos b - start b"
  shows "loop_body tx lx = Inr (lexer_accept lx b) \<and>
         steps (Suc n) tx (lx0\<lparr>tokens := [], line_counter := ProgramCounter_init\<rparr>) =
           Some (lexer_accept lx b)"
proof -
  let ?pc = "line_counter lx"
  from steps_inv [OF fresh_inv [OF c] r]
  have inv: "lexer_inv tx lx" and ts: "templates lx = pre @ t # post" by (simp_all add: sp)
  then have pi: "pc_inv tx ?pc" and rg: "0 \<le> pc_start ?pc" "pc_start ?pc \<le> int (length tx)"
    by (simp_all add: lexer_inv_def pc_inv_def)
  have ct: "re_contract (regular_expression u)" if "u \<in> set (pre @ t # post)" for u
    using that c sp by auto
  from raw_token [OF ct rg m cb] obtain g where
    g: "lexeme b = PyStr g" "int (length g) = end_pos b - start b" by auto
  with ne have tr: "token_truthy b" by (simp add: token_truthy_def token_len_def)
  have pre': "\<forall>u\<in>set pre. \<forall>tok. match u tx (pc_start ?pc) (pc_line ?pc) (pc_column ?pc) = Some tok \<longrightarrow>
      token_truthy tok \<longrightarrow> (\<exists>s'. lexeme tok = PyStr s' \<and> length s' \<le> length g)"
  proof (intro ballI allI impI)
    fix u tok
    assume u: "u \<in> set pre"
      and mu: "match u tx (pc_start ?pc) (pc_line ?pc) (pc_column ?pc) = Some tok"
    with pre have cu: "callback u = None"
      and le: "end_pos tok - start tok \<le> end_pos b - start b" by auto
    from u have "u \<in> set (pre @ t # post)" by simp
    from raw_token [OF ct [OF this] rg mu cu] obtain s' where
      "lexeme tok = PyStr s'" "int (length s') = end_pos tok - start tok" by auto
    with le g show "\<exists>s'. lexeme tok = PyStr s' \<and> length s' \<le> length g" by auto
  qed
  have post': "\<forall>u\<in>set post. \<forall>tok. match u tx (pc_start ?pc) (pc_line ?pc) (pc_column ?pc) = Some tok \<longrightarrow>
      token_truthy tok \<longrightarrow> (\<exists>s'. lexeme tok = PyStr s' \<and> length s' < length g)"
  proof (intro ballI allI impI)
    fix u tok
    assume u: "u \<in> set post"
      and mu: "match u tx (pc_start ?pc) (pc_line ?pc) (pc_column ?pc) = Some tok"
    with post have cu: "callback u = None"
      and le: "end_pos tok - start tok < end_pos b - start b" by auto
    from u have "u \<in> set (pre @ t # post)" by simp
    from raw_token [OF ct [OF this] rg mu cu] obtain s' where
      "lexeme tok = PyStr s'" "int (length s') = end_pos tok - start tok" by auto
    with le g show "\<exists>s'. lexeme tok = PyStr s' \<and> length s' < length g" by auto
  qed
  have "scan_templates (pre @ t # post) tx ?pc None = Inr (Some b)"
    using scan_templates_winner [OF m tr g(1) post' pre'] by simp
  with ts tr have lb: "loop_body tx lx = Inr (lexer_accept lx b)"
    by (simp add: loop_body_def)
  have "t \<in> set (pre @ t # post)" by simp
  from accept_inv [OF ct [OF this] pi m] have "end_pos b \<le> int (length tx)"
    by (simp add: pc_inv_def accept_def Let_def)
  moreover from m have "start b = pc_start ?pc"
    by (auto simp: match_def Let_def split: option.splits prod.splits)
  ultimately have "\<not> at_end tx lx" using ne by (simp add: at_end_def)
  from steps_snoc [OF r this lb] lb show ?thesis by simp
qed

text \<open>
  Scenario 3 of the specification: \<^verbatim>\<open>KEYWORD\<close> is declared before \<^verbatim>\<open>WORD\<close>, both match
  the three characters of \<^verbatim>\<open>for\<close>, and the first pass accepts the token of \<^verbatim>\<open>WORD\<close>.
\<close>

theorem tie_break_latest_witness:
  "match KEYWORD ''for'' 0 1 1 =
     Some \<lparr>token_type = ''KEYWORD'', lexeme = PyStr ''for'', start = 0, end_pos = 3,
           line = 1, column = 1\<rparr> \<and>
   steps (Suc 0) ''for'' (Lexer_init [KEYWORD, WORD]) =
     Some \<lparr>templates = [KEYWORD, WORD],
           tokens = [\<lparr>token_type = ''WORD'', lexeme = PyStr ''for'', start = 0, end_pos = 3,
                      line = 1, column = 1\<rparr>],
           line_counter = \<lparr>pc_start = 3, pc_line = 1, pc_column = 4\<rparr>\<rparr>"
proof -
  let ?lx = "Lexer_init [KEYWORD, WORD]"
  let ?b = "\<lparr>token_type = ''WORD'', lexeme = PyStr ''for'', start = 0, end_pos = 3,
             line = 1, column = 1\<rparr>"
  have k: "match KEYWORD ''for'' 0 1 1 =
     Some \<lparr>token_type = ''KEYWORD'', lexeme = PyStr ''for'', start = 0, end_pos = 3,
           line = 1, column = 1\<rparr>"
    by (simp add: step_defs KEYWORD_def)
  have c: "\<forall>u\<in>set (templates ?lx). re_contract (regular_expression u)"
    by (simp add: Lexer_init_def KEYWORD_def WORD_def re_contract_plus re_contract_literal)
  have r: "steps 0 ''for'' (?lx\<lparr>tokens := [], line_counter := ProgramCounter_init\<rparr>) = Some ?lx"
    by (simp add: Lexer_init_def)
  have sp: "templates ?lx = [KEYWORD] @ WORD # []"
    by (simp add: Lexer_init_def)
  have m: "match WORD ''for'' (pc_start (line_counter ?lx)) (pc_line (line_counter ?lx))
             (pc_column (line_counter ?lx)) = Some ?b"
    by (simp add: step_defs WORD_def)
  have cb: "callback WORD = None" by (simp add: WORD_def)
  have ne: "start ?b < end_pos ?b" by simp
  have pre: "\<forall>u\<in>set [KEYWORD]. \<forall>tok.
      match u ''for'' (pc_start (line_counter ?lx)) (pc_line (line_counter ?lx))
        (pc_column (line_counter ?lx)) = Some tok \<longrightarrow>
      callback u = None \<and> end_pos tok - start tok \<le> end_pos ?b - start ?b"
    by (auto simp: step_defs KEYWORD_def)
  have post: "\<forall>u\<in>set []. \<forall>tok.
      match u ''for'' (pc_start (line_counter ?lx)) (pc_line (line_counter ?lx))
        (pc_column (line_counter ?lx)) = Some tok \<longrightarrow>
      callback u = None \<and> end_pos tok - start tok < end_pos ?b - start ?b"
    by simp
  from tie_break_latest [OF c r sp m cb ne pre post] k show ?thesis
    by (simp add: Lexer_init_def ProgramCounter_init_def lexer_accept_def accept_def)
qed

text \<open>
  The tie-break as the specification words it, the earliest declared template winning,
  fails on the same input: both templates match the three characters, and \<open>tokenize\<close>
  returns the token of \<^verbatim>\<open>WORD\<close>, the later of the two.
\<close>

theorem tie_break_first_counterexample:
  "match KEYWORD ''for'' 0 1 1 =
     Some \<lparr>token_type = ''KEYWORD'', lexeme = PyStr ''for'', start = 0, end_pos = 3,
           line = 1, column = 1\<rparr> \<and>
   match WORD ''for'' 0 1 1 =
     Some \<lparr>token_type = ''WORD'', lexeme = PyStr ''for'', start = 0, end_pos = 3,
           line = 1, column = 1\<rparr> \<and>
   map_option fst (tokenize (Lexer_init [KEYWORD, WORD]) ''for'' None) =
     Some (Inr [\<lparr>token_type = ''WORD'', lexeme = PyStr ''for'', start = 0, end_pos = 3,
                 line = 1, column = 1\<rparr>])"
  by (simp add: run_defs template_defs)

text \<open>
  Claim C2 (longest match by raw span) does not hold of the code, which compares
  \<^verbatim>\<open>len\<close> of the lexemes after the callbacks.  With the docstring's template
  \<^verbatim>\<open>('LITERAL', r'\d+', int)\<close> and a template for the digit \<^verbatim>\<open>1\<close>, on the text \<^verbatim>\<open>12\<close>
  the first has the longer raw match, and \<open>tokenize\<close> raises \<^verbatim>\<open>TypeError\<close> in either
  declaration order.  With \<^verbatim>\<open>\n+\<close> and \<^verbatim>\<open>\n\<close>, both mapped to one newline by their
  callback, on two newlines the first has the longer raw match and the second is chosen.
\<close>

theorem longest_match_transform_failure:
  "match LITERAL ''12'' 0 1 1 =
     Some \<lparr>token_type = ''LITERAL'', lexeme = PyInt 12, start = 0, end_pos = 2,
           line = 1, column = 1\<rparr> \<and>
   match ONE ''12'' 0 1 1 =
     Some \<lparr>token_type = ''ONE'', lexeme = PyStr ''1'', start = 0, end_pos = 1,
           line = 1, column = 1\<rparr> \<and>
   map_option fst (tokenize (Lexer_init [LITERAL, ONE]) ''12'' None) = Some (Inl TypeError) \<and>
   map_option fst (tokenize (Lexer_init [ONE, LITERAL]) ''12'' None) = Some (Inl TypeError) \<and>
   match NEWLINES [NEWLINE, NEWLINE] 0 1 1 =
     Some \<lparr>token_type = ''NEWLINES'', lexeme = PyStr [NEWLINE], start = 0, end_pos = 2,
           line = 3, column = 1\<rparr> \<and>
   match NEWLINE_T [NEWLINE, NEWLINE] 0 1 1 =
     Some \<lparr>token_type = ''NEWLINE'', lexeme = PyStr [NEWLINE], start = 0, end_pos = 1,
           line = 2, column = 1\<rparr> \<and>
   map_option fst (tokenize (Lexer_init [NEWLINES, NEWLINE_T]) [NEWLINE, NEWLINE] None) =
     Some (Inr [\<lparr>token_type = ''NEWLINE'', lexeme = PyStr [NEWLINE], start = 0, end_pos = 1,
                 line = 2, column = 1\<rparr>,
                \<lparr>token_type = ''NEWLINE'', lexeme = PyStr [NEWLINE], start = 1, end_pos = 2,
                 line = 3, column = 1\<rparr>])"
  by (simp add: run_defs template_defs py_int_def digits.simps)

subsection \<open>\<^verbatim>\<open>tokenize\<close>\<close>

text \<open>
  Claim C9 (empty input).  On the empty string \<open>tokenize\<close> returns the empty tuple,
  whatever the templates and the filter: no error, and the lexer is left with no token and
  a fresh counter.
\<close>

theorem tokenize_empty:
  "tokenize lx [] ft = Some (Inr [], lx\<lparr>tokens := [], line_counter := ProgramCounter_init\<rparr>)"
  by (simp add: tokenize_def tokenize_loop.simps at_end_def ProgramCounter_init_def)

text \<open>
  An instance, with two templates and a filter.
\<close>

theorem tokenize_empty_witness:
  "tokenize (Lexer_init [WORD, SPACE]) [] (Some [''SPACE'']) =
     Some (Inr [], Lexer_init [WORD, SPACE])"
  using tokenize_empty [of "Lexer_init [WORD, SPACE]" "Some [''SPACE'']"]
  by (simp add: Lexer_init_def)

text \<open>
  Claim C7 (filtering).  When \<open>tokenize\<close> returns with a filter \<open>F\<close>, the same call with
  no filter, or with the empty one, returns the whole list of accepted tokens, and the
  result with \<open>F\<close> is that list without the tokens whose type is in \<open>F\<close>, in the same
  order.
\<close>

theorem tokenize_filter:
  assumes "tokenize lx tx (Some F) = Some (Inr r, lx')"
  shows "tokenize lx tx None = Some (Inr (tokens lx'), lx') \<and>
         tokenize lx tx (Some []) = Some (Inr (tokens lx'), lx') \<and>
         r = filter (\<lambda>x. token_type x \<notin> set F) (tokens lx')"
  using assms by (auto simp: tokenize_def split: option.splits prod.splits)

text \<open>
  \<^verbatim>\<open>ab cd\<close> with \<^verbatim>\<open>SPACE\<close> filtered: the two words remain.
\<close>

theorem tokenize_filter_witness:
  "tokenize (Lexer_init [WORD, SPACE]) ''ab cd'' None =
     Some (Inr ab_cd, \<lparr>templates = [WORD, SPACE], tokens = ab_cd,
             line_counter = \<lparr>pc_start = 5, pc_line = 1, pc_column = 6\<rparr>\<rparr>) \<and>
   [ab_cd ! 0, ab_cd ! 2] = filter (\<lambda>x. token_type x \<notin> set [''SPACE'']) ab_cd"
  using tokenize_filter [OF tokenize_ab_cd [of "Some [''SPACE'']"]]
  by (simp add: ab_cd_def)

text \<open>
  Claim C3 (fatal on no match).  Let the patterns keep the library's promise.  If the
  loop reaches a state, after \<open>n\<close> passes, that is not at the end of the text and at which
  no template matches, then \<open>tokenize\<close> returns \<^verbatim>\<open>UnknownSymbolError\<close> with the line and
  the column of the counter in that state (both at least 1) and the text's line of that
  number as excerpt; the lexer is left in that very state, so no further token was
  produced.
\<close>

theorem fatal_on_no_match:
  assumes "\<forall>t\<in>set (templates lx). re_contract (regular_expression t)"
    and "steps n tx (lx\<lparr>tokens := [], line_counter := ProgramCounter_init\<rparr>) = Some lx1"
    and "\<not> at_end tx lx1"
    and "\<forall>t\<in>set (templates lx).
           match t tx (pc_start (line_counter lx1)) (pc_line (line_counter lx1))
             (pc_column (line_counter lx1)) = None"
  shows "tokenize lx tx ft =
           Some (Inl (UnknownSymbolError (pc_line (line_counter lx1)) (pc_column (line_counter lx1))
                        (split_newline tx ! nat (pc_line (line_counter lx1) - 1))), lx1) \<and>
         1 \<le> pc_line (line_counter lx1) \<and> 1 \<le> pc_column (line_counter lx1)"
proof -
  let ?lx0 = "lx\<lparr>tokens := [], line_counter := ProgramCounter_init\<rparr>"
  let ?pc = "line_counter lx1"
  from steps_inv [OF fresh_inv [OF assms(1)] assms(2)]
  have inv: "lexer_inv tx lx1" and ts: "templates lx1 = templates lx" by simp_all
  then have pi: "pc_inv tx ?pc" by (simp add: lexer_inv_def)
  from assms(4) ts have "scan_templates (templates lx1) tx ?pc None = Inr None"
    by (simp add: scan_templates_no_match)
  then have "loop_body tx lx1 =
      Inl (UnknownSymbolError (pc_line ?pc) (pc_column ?pc) (split_newline tx ! nat (pc_line ?pc - 1)))"
    by (simp add: loop_body_def Let_def raise_UnknownSymbolError_inv [OF pi])
  with assms(3) have "tokenize_loop tx lx1 =
      Some (Some (UnknownSymbolError (pc_line ?pc) (pc_column ?pc)
                    (split_newline tx ! nat (pc_line ?pc - 1))), lx1)"
    by (subst tokenize_loop.simps) simp
  with tokenize_loop_steps [OF assms(2)] have "tokenize lx tx ft =
      Some (Inl (UnknownSymbolError (pc_line ?pc) (pc_column ?pc)
                    (split_newline tx ! nat (pc_line ?pc - 1))), lx1)"
    by (simp add: tokenize_def)
  moreover from pi have "1 \<le> pc_line ?pc" "1 \<le> pc_column ?pc"
    by (simp_all add: pc_inv_def)
  ultimately show ?thesis by simp
qed

text \<open>
  Scenario 4 of the specification, with words for digits: \<^verbatim>\<open>ab cd\<close> without a template
  for the blank fails at line 1, column 3, after the token \<^verbatim>\<open>ab\<close>.
\<close>

theorem fatal_on_no_match_witness:
  "tokenize (Lexer_init [WORD]) ''ab cd'' None =
     Some (Inl (UnknownSymbolError 1 3 ''ab cd''),
       \<lparr>templates = [WORD],
         tokens = [\<lparr>token_type = ''WORD'', lexeme = PyStr ''ab'', start = 0, end_pos = 2,
                    line = 1, column = 1\<rparr>],
         line_counter = \<lparr>pc_start = 2, pc_line = 1, pc_column = 3\<rparr>\<rparr>)"
proof -
  let ?lx1 = "\<lparr>templates = [WORD],
         tokens = [\<lparr>token_type = ''WORD'', lexeme = PyStr ''ab'', start = 0, end_pos = 2,
                    line = 1, column = 1\<rparr>],
         line_counter = \<lparr>pc_start = 2, pc_line = 1, pc_column = 3\<rparr>\<rparr>"
  have c: "\<forall>t\<in>set (templates (Lexer_init [WORD])). re_contract (regular_expression t)"
    by (simp add: Lexer_init_def WORD_def re_contract_plus)
  have s: "steps (Suc 0) ''ab cd''
             ((Lexer_init [WORD])\<lparr>tokens := [], line_counter := ProgramCounter_init\<rparr>) = Some ?lx1"
    by (simp add: step_defs WORD_def)
  have e: "\<not> at_end ''ab cd'' ?lx1"
    by (simp add: at_end_def)
  have m: "\<forall>t\<in>set (templates (Lexer_init [WORD])).
             match t ''ab cd'' (pc_start (line_counter ?lx1)) (pc_line (line_counter ?lx1))
               (pc_column (line_counter ?lx1)) = None"
    by (simp add: step_defs WORD_def)
  from fatal_on_no_match [OF c s e m, of None] show ?thesis
    by (simp add: NEWLINE_def)
qed

text \<open>
  Claim C4 (coverage).  When \<open>tokenize\<close> returns, the accepted tokens, in order, chain
  from 0 to the length of the text: the first starts at 0, each next one starts where the
  one before it ended, the last ends at the length of the text, and there is no token only
  if the text is empty.  If the patterns keep the library's promise, every span is
  moreover non-empty.
\<close>

theorem tokenize_coverage:
  assumes "tokenize lx tx ft = Some (Inr r, lx')"
  shows "(tokens lx' = [] \<longrightarrow> length tx = 0) \<and>
         (tokens lx' \<noteq> [] \<longrightarrow>
            start (hd (tokens lx')) = 0 \<and> end_pos (last (tokens lx')) = int (length tx)) \<and>
         (\<forall>i. Suc i < length (tokens lx') \<longrightarrow>
            start (tokens lx' ! Suc i) = end_pos (tokens lx' ! i)) \<and>
         ((\<forall>t\<in>set (templates lx). re_contract (regular_expression t)) \<longrightarrow>
            (\<forall>tok\<in>set (tokens lx'). start tok < end_pos tok))"
proof -
  let ?lx0 = "lx\<lparr>tokens := [], line_counter := ProgramCounter_init\<rparr>"
  from assms have l: "tokenize_loop tx ?lx0 = Some (None, lx')"
    by (auto simp: tokenize_def Let_def split: option.splits prod.splits)
  from tokenize_loop_Some_steps [OF l] obtain n where
    s: "steps n tx ?lx0 = Some lx'" and e: "at_end tx lx'"
    by (auto simp: loop_stopped_def)
  have "spans_chain 0 (tokens ?lx0) (pc_start (line_counter ?lx0))"
    by (simp add: ProgramCounter_init_def)
  from steps_chain [OF this s] e have "spans_chain 0 (tokens lx') (int (length tx))"
    by (simp add: at_end_def)
  note idx = spans_chain_index [OF this]
  have "\<forall>tok\<in>set (tokens lx'). start tok < end_pos tok"
    if c: "\<forall>t\<in>set (templates lx). re_contract (regular_expression t)"
  proof -
    from l have "tokenize_loop tx ?lx0 \<noteq> None" by simp
    from steps_nonempty [OF fresh_inv [OF c] s this] show ?thesis by simp
  qed
  with idx show ?thesis by auto
qed

text \<open>
  The three tokens of \<^verbatim>\<open>ab cd\<close>: spans \<open>[0,2)\<close>, \<open>[2,3)\<close>, \<open>[3,5)\<close>.
\<close>

theorem tokenize_coverage_witness:
  "start (ab_cd ! 0) = 0 \<and> end_pos (ab_cd ! 2) = 5 \<and>
   start (ab_cd ! 1) = end_pos (ab_cd ! 0) \<and> start (ab_cd ! 2) = end_pos (ab_cd ! 1) \<and>
   start (ab_cd ! 0) < end_pos (ab_cd ! 0) \<and> start (ab_cd ! 1) < end_pos (ab_cd ! 1) \<and>
   start (ab_cd ! 2) < end_pos (ab_cd ! 2)"
proof -
  have c: "\<forall>t\<in>set (templates (Lexer_init [WORD, SPACE])). re_contract (regular_expression t)"
    by (simp add: Lexer_init_def WORD_def SPACE_def re_contract_plus re_contract_literal)
  from tokenize_coverage [OF tokenize_ab_cd [of None]] c show ?thesis
    by (simp add: ab_cd_def)
qed

text \<open>
  Claim C10 (progress and termination).  Let the patterns keep the library's promise.
  If at every state that the loop reaches the token it accepts has \<open>start < end\<close>, then
  \<open>tokenize\<close> returns (a tuple or an error).  If at some state that the loop reaches the
  token it accepts has \<open>end = start\<close>, then the offset of the counter stays where it is and
  \<open>tokenize\<close> never returns.
\<close>

theorem tokenize_termination:
  assumes "\<forall>t\<in>set (templates lx). re_contract (regular_expression t)"
  shows "((\<forall>n lx1 lx2.
             steps n tx (lx\<lparr>tokens := [], line_counter := ProgramCounter_init\<rparr>) = Some lx1 \<longrightarrow>
             \<not> at_end tx lx1 \<longrightarrow> loop_body tx lx1 = Inr lx2 \<longrightarrow>
             start (last (tokens lx2)) < end_pos (last (tokens lx2))) \<longrightarrow>
          tokenize lx tx ft \<noteq> None) \<and>
         (\<forall>n lx1 lx2.
             steps n tx (lx\<lparr>tokens := [], line_counter := ProgramCounter_init\<rparr>) = Some lx1 \<longrightarrow>
             \<not> at_end tx lx1 \<longrightarrow> loop_body tx lx1 = Inr lx2 \<longrightarrow>
             end_pos (last (tokens lx2)) = start (last (tokens lx2)) \<longrightarrow>
             pc_start (line_counter lx2) = pc_start (line_counter lx1) \<and>
             tokenize lx tx ft = None)"
proof (intro conjI impI allI)
  let ?lx0 = "lx\<lparr>tokens := [], line_counter := ProgramCounter_init\<rparr>"
  assume prog: "\<forall>n lx1 lx2. steps n tx ?lx0 = Some lx1 \<longrightarrow> \<not> at_end tx lx1 \<longrightarrow>
      loop_body tx lx1 = Inr lx2 \<longrightarrow> start (last (tokens lx2)) < end_pos (last (tokens lx2))"
  have "\<forall>n lx1 lx2. steps n tx ?lx0 = Some lx1 \<longrightarrow> \<not> at_end tx lx1 \<longrightarrow>
      loop_body tx lx1 = Inr lx2 \<longrightarrow> pc_start (line_counter lx1) < pc_start (line_counter lx2)"
  proof (intro allI impI)
    fix n lx1 lx2
    assume a: "steps n tx ?lx0 = Some lx1" "\<not> at_end tx lx1" "loop_body tx lx1 = Inr lx2"
    with prog have "start (last (tokens lx2)) < end_pos (last (tokens lx2))" by blast
    with loop_body_last [OF a(3)]
    show "pc_start (line_counter lx1) < pc_start (line_counter lx2)" by simp
  qed
  from progress_terminates [OF fresh_inv [OF assms] this]
  show "tokenize lx tx ft \<noteq> None"
    by (auto simp: tokenize_def split: option.splits)
next
  let ?lx0 = "lx\<lparr>tokens := [], line_counter := ProgramCounter_init\<rparr>"
  fix n lx1 lx2
  assume a: "steps n tx ?lx0 = Some lx1" "\<not> at_end tx lx1" "loop_body tx lx1 = Inr lx2"
    "end_pos (last (tokens lx2)) = start (last (tokens lx2))"
  from loop_body_last [OF a(3)] a(4)
  show "pc_start (line_counter lx2) = pc_start (line_counter lx1)" by simp
next
  let ?lx0 = "lx\<lparr>tokens := [], line_counter := ProgramCounter_init\<rparr>"
  fix n lx1 lx2
  assume a: "steps n tx ?lx0 = Some lx1" "\<not> at_end tx lx1" "loop_body tx lx1 = Inr lx2"
    "end_pos (last (tokens lx2)) = start (last (tokens lx2))"
  from steps_inv [OF fresh_inv [OF assms] a(1)] have inv: "lexer_inv tx lx1" by simp
  from empty_token_same_counter [OF inv a(3,4)]
  have "line_counter lx2 = line_counter lx1" .
  from stuck_diverges [OF a(2,3) this] tokenize_loop_steps [OF a(1)]
  show "tokenize lx tx ft = None"
    by (simp add: tokenize_def)
qed

text \<open>
  \<^verbatim>\<open>[a-z]+\<close> on \<^verbatim>\<open>for\<close> returns; \<^verbatim>\<open>[ ]*\<close>, whose callback gives a blank, accepts an
  empty match at the \<^verbatim>\<open>a\<close> and never returns.
\<close>

theorem tokenize_termination_witness:
  "tokenize (Lexer_init [WORD]) ''for'' None \<noteq> None \<and>
   tokenize (Lexer_init [BLANKS]) ''a'' None = None"
proof
  let ?lx0 = "(Lexer_init [WORD])\<lparr>tokens := [], line_counter := ProgramCounter_init\<rparr>"
  have c: "\<forall>t\<in>set (templates (Lexer_init [WORD])). re_contract (regular_expression t)"
    by (simp add: Lexer_init_def WORD_def re_contract_plus)
  have p: "\<forall>n lx1 lx2. steps n ''for'' ?lx0 = Some lx1 \<longrightarrow> \<not> at_end ''for'' lx1 \<longrightarrow>
             loop_body ''for'' lx1 = Inr lx2 \<longrightarrow>
             start (last (tokens lx2)) < end_pos (last (tokens lx2))"
  proof (intro allI impI)
    fix n lx1 lx2
    assume a: "steps n ''for'' ?lx0 = Some lx1" "\<not> at_end ''for'' lx1"
      "loop_body ''for'' lx1 = Inr lx2"
    show "start (last (tokens lx2)) < end_pos (last (tokens lx2))"
    proof (cases n)
      case 0
      with a(1) have "lx1 = ?lx0" by simp
      with a(3) show ?thesis by (auto simp: step_defs WORD_def)
    next
      case (Suc k)
      with a(1,2) show ?thesis
        by (cases k) (auto simp: step_defs WORD_def)
    qed
  qed
  from tokenize_termination [OF c, of "''for''" None] p
  show "tokenize (Lexer_init [WORD]) ''for'' None \<noteq> None" by blast
next
  let ?lx0 = "(Lexer_init [BLANKS])\<lparr>tokens := [], line_counter := ProgramCounter_init\<rparr>"
  let ?b = "\<lparr>token_type = ''BLANKS'', lexeme = PyStr '' '', start = 0, end_pos = 0,
             line = 1, column = 1\<rparr>"
  have c: "\<forall>t\<in>set (templates (Lexer_init [BLANKS])). re_contract (regular_expression t)"
    by (simp add: Lexer_init_def BLANKS_def re_contract_star)
  have s: "steps 0 ''a'' ?lx0 = Some ?lx0" by simp
  have e: "\<not> at_end ''a'' ?lx0" by (simp add: step_defs)
  have b: "loop_body ''a'' ?lx0 = Inr (lexer_accept ?lx0 ?b)"
    by (simp add: step_defs BLANKS_def)
  have l: "end_pos (last (tokens (lexer_accept ?lx0 ?b))) =
           start (last (tokens (lexer_accept ?lx0 ?b)))"
    by (simp add: lexer_accept_def)
  from tokenize_termination [OF c, of "''a''" None] s e b l
  show "tokenize (Lexer_init [BLANKS]) ''a'' None = None" by blast
qed

end
